theory Spec2Isabelle
  imports Main "HOL-Library.Word" "HOL-Library.Signed_Division" "HOL-Library.Code_Target_Numeral"
begin

unbundle bit_operations_syntax

section \<open>Data model of \<open>utils/data_generator.h\<close>\<close>

text \<open>
  A \<open>char\<close> of a \<open>std::vector<char>\<close> is a byte, \<open>uint64_t\<close> is a 64-bit word whose
  addition wraps. \<open>off_t\<close> is a signed 64-bit integer: it is modelled as \<open>int\<close>, with C's
  truncating \<open>/\<close> and \<open>%\<close> written \<open>sdiv\<close> and \<open>smod\<close>. Signed overflow has no defined
  result in C++, so the theorems below are stated for files whose size is at most
  \<open>off_t_max\<close>, the largest value of \<open>st_size\<close>; there no \<open>off_t\<close> leaves its range.
  Counts in \<open>size_t\<close> and \<open>uint64_t\<close> that only go down from the size of the file are
  natural numbers; the one sum that could wrap, the size of the aligned buffer, is taken
  modulo \<open>2^64\<close>.
  A file is the list of its bytes, the file system a map from path names to files.
  Opening a file for writing, allocating a buffer and closing a file succeed; a \<open>write\<close>
  writes all its bytes. A result \<open>None\<close> stands for a loop that does not end.
  The source's variable \<open>size\<close> is written \<open>sz\<close>, since \<open>size\<close> is a constant of HOL.
\<close>

type_synonym byte = "8 word"
type_synonym uint64 = "64 word"
type_synonym off_t = int
type_synonym filesystem = "string \<rightharpoonup> byte list"

text \<open>An open file descriptor: the content of the file and the current position.\<close>

type_synonym fd = "byte list \<times> nat"

text \<open>
  \<open>Fatal\<close> is the process abort of \<open>utils_passert\<close>, \<open>utils_zassert\<close>, \<open>utils_massert\<close>
  and \<open>utils_mabort\<close>; \<open>LengthError\<close> and \<open>InvalidArgument\<close> are the two exceptions
  \<open>validateFile\<close> throws, with their messages. \<open>OutOfBounds\<close> stands for a \<open>memcpy\<close>
  whose source range is not inside the source buffer.
\<close>

datatype error = Fatal string | LengthError string | InvalidArgument string | OutOfBounds

definition off_t_max :: nat where
  "off_t_max = 2 ^ 63 - 1"

definition size_t_range :: nat where
  "size_t_range = 2 ^ 64"

text \<open>\<open>std::vector<char>::max_size()\<close>: no buffer is longer.\<close>

definition vector_max_size :: nat where
  "vector_max_size = 2 ^ 63 - 1"

section \<open>Byte order and text output\<close>

text \<open>
  \<open>htobe64 x\<close> stored into memory: the eight bytes of \<open>x\<close>, most significant first.
  \<open>be64toh\<close> of eight bytes read from memory is the inverse.
\<close>

definition htobe64 :: "uint64 \<Rightarrow> byte list" where
  "htobe64 w = [ucast (drop_bit 56 w), ucast (drop_bit 48 w), ucast (drop_bit 40 w),
     ucast (drop_bit 32 w), ucast (drop_bit 24 w), ucast (drop_bit 16 w),
     ucast (drop_bit 8 w), ucast w]"

definition be64toh :: "byte list \<Rightarrow> uint64" where
  "be64toh bs = foldl (\<lambda>acc b. push_bit 8 acc OR ucast b) 0 bs"

definition digit_char :: "nat \<Rightarrow> char" where
  "digit_char d = (''0123456789abcdef'') ! d"

text \<open>\<open>std::to_string\<close> of an unsigned value, and \<open>operator<<\<close> of a \<open>size_t\<close>: decimal.\<close>

fun to_string :: "nat \<Rightarrow> string" where
  "to_string n = (if n < 10 then [digit_char n] else to_string (n div 10) @ [digit_char (n mod 10)])"

declare to_string.simps [simp del]

text \<open>\<open>std::hex << std::setfill('0') << std::setw(2)\<close> of an \<open>unsigned char\<close>.\<close>

definition hex2 :: "byte \<Rightarrow> string" where
  "hex2 b = [digit_char (unat b div 16), digit_char (unat b mod 16)]"

section \<open>The file system collaborator\<close>

text \<open>
  \<open>write\<close> at the current position: it overwrites what is there, extends the file at its
  end, advances the position and returns the number of bytes written. \<open>read\<close> returns the
  bytes from the current position, fewer than asked for at the end of the file.
\<close>

definition write_fd :: "fd \<Rightarrow> byte list \<Rightarrow> fd \<times> nat" where
  "write_fd f data = (case f of (content, pos) \<Rightarrow>
     ((take pos content @ replicate (pos - length content) 0 @ data
        @ drop (pos + length data) content, pos + length data), length data))"

definition read_fd :: "fd \<Rightarrow> nat \<Rightarrow> fd \<times> byte list" where
  "read_fd f n = (case f of (content, pos) \<Rightarrow>
     (let chunk = take n (drop pos content) in ((content, pos + length chunk), chunk)))"

text \<open>\<open>std::vector::resize\<close>: cut, or extend with zero bytes.\<close>

definition resize :: "byte list \<Rightarrow> nat \<Rightarrow> byte list" where
  "resize buffer n = take n buffer @ replicate (n - length buffer) 0"

text \<open>
  \<open>memcpy(dst.data(), src.data() + idx, n)\<close>: the first \<open>n\<close> bytes of \<open>dst\<close> become the
  \<open>n\<close> bytes of \<open>src\<close> from index \<open>idx\<close>. The index is a signed difference of offsets.
\<close>

definition memcpy :: "byte list \<Rightarrow> byte list \<Rightarrow> int \<Rightarrow> nat \<Rightarrow> error + byte list" where
  "memcpy dst src idx n =
     (if 0 \<le> idx \<and> nat idx + n \<le> length src \<and> n \<le> length dst
      then Inr (take n (drop (nat idx) src) @ drop n dst)
      else Inl OutOfBounds)"

text \<open>
  \<open>memcmp\<close> of the first \<open>n\<close> bytes: zero when they agree, otherwise the sign of the
  difference of the first two bytes that differ, read as \<open>unsigned char\<close>.
\<close>

fun memcmp :: "byte list \<Rightarrow> byte list \<Rightarrow> nat \<Rightarrow> int" where
  "memcmp (x # xs) (y # ys) n =
     (if n = 0 then 0
      else if x = y then memcmp xs ys (n - 1)
      else if unat x < unat y then - 1 else 1)"
| "memcmp _ _ _ = 0"

section \<open>The offset-to-block function\<close>

definition blockPattern :: uint64 where
  "blockPattern = 0x0807060504030201"

text \<open>\<open>blocks[i] = block\<close> on the buffer seen as an array of 8-byte blocks.\<close>

definition store_block :: "byte list \<Rightarrow> nat \<Rightarrow> byte list \<Rightarrow> byte list" where
  "store_block buffer i block = take (8 * i) buffer @ block @ drop (8 * i + 8) buffer"

text \<open>
  The loop of \<open>fillAlignedBufferWithProperData\<close>. The sum
  \<open>0x0807060504030201ULL + offset\<close> is computed in \<open>uint64_t\<close>.
\<close>

function fillAlignedLoop :: "byte list \<Rightarrow> nat \<Rightarrow> off_t \<Rightarrow> byte list" where
  "fillAlignedLoop buffer i offset =
     (if i < length buffer div 8
      then fillAlignedLoop (store_block buffer i (htobe64 (blockPattern + word_of_int offset)))
             (Suc i) (offset + 8)
      else buffer)"
  by pat_completeness auto
termination
  by (relation "measure (\<lambda>(buffer, i, offset). length buffer div 8 - i)")
    (auto simp: store_block_def htobe64_def)

declare fillAlignedLoop.simps [simp del]

text \<open>
  \<open>offset % sizeof(BlockType)\<close> is computed after the conversion of \<open>offset\<close> to
  \<open>size_t\<close>, which is \<open>offset mod 8\<close> for every \<open>offset\<close>.
\<close>

definition fillAlignedBufferWithProperData :: "byte list \<Rightarrow> off_t \<Rightarrow> error + byte list" where
  "fillAlignedBufferWithProperData buffer offset =
     (if offset mod 8 \<noteq> 0 then Inl (Fatal ''offset % sizeof(BlockType) == 0'')
      else if length buffer mod 8 \<noteq> 0 then Inl (Fatal ''buffer.size() % sizeof(BlockType) == 0'')
      else Inr (fillAlignedLoop buffer 0 offset))"

text \<open>The size of the aligned buffer, computed in \<open>size_t\<close>.\<close>

definition alignedBufferSize :: "nat \<Rightarrow> nat" where
  "alignedBufferSize sz = (16 + (sz div 8) * 8) mod size_t_range"

definition alignedOffset :: "off_t \<Rightarrow> off_t" where
  "alignedOffset offset = (offset sdiv 8) * 8"

definition fillBufferWithProperData :: "byte list \<Rightarrow> off_t \<Rightarrow> error + byte list" where
  "fillBufferWithProperData buffer offset =
     (let sz = length buffer in
      if offset smod 8 = 0 \<and> sz mod 8 = 0 then fillAlignedBufferWithProperData buffer offset
      else
        (let alignedBuffer = replicate (alignedBufferSize sz) 0 in
         case fillAlignedBufferWithProperData alignedBuffer (alignedOffset offset) of
           Inl e \<Rightarrow> Inl e
         | Inr alignedBuffer' \<Rightarrow> memcpy buffer alignedBuffer' (offset - alignedOffset offset) sz))"

section \<open>Writing a pattern file\<close>

text \<open>The block size of \<open>UtilsConfiguration::blockSize()\<close> is the parameter \<open>blockSize\<close>.\<close>

partial_function (option) fillFileLoop ::
  "fd \<Rightarrow> nat \<Rightarrow> off_t \<Rightarrow> byte list \<Rightarrow> (error + fd) option" where
  [code]: "fillFileLoop f sz currentOffset buffer =
     (if sz > 0 then
        (let bytesToWrite = (if sz > length buffer then length buffer else sz);
             buffer1 = resize buffer bytesToWrite
         in case fillBufferWithProperData buffer1 currentOffset of
              Inl e \<Rightarrow> Some (Inl e)
            | Inr buffer2 \<Rightarrow>
               (case write_fd f (take bytesToWrite buffer2) of (f', written) \<Rightarrow>
                  if written \<noteq> bytesToWrite
                  then Some (Inl (Fatal ''write(fd, buffer.data(), bytesToWrite) == bytesToWrite''))
                  else fillFileLoop f' (sz - bytesToWrite) (currentOffset + int bytesToWrite) buffer2))
      else Some (Inr f))"

definition fillFileWithProperData :: "nat \<Rightarrow> fd \<Rightarrow> uint64 \<Rightarrow> (error + fd) option" where
  "fillFileWithProperData blockSize f sz =
     (if \<not> 8 \<le> sz then Some (Inl (Fatal ''size >= sizeof(serializedSize)''))
      else case write_fd f (htobe64 sz) of (f1, written) \<Rightarrow>
        if written \<noteq> 8 then Some (Inl (Fatal ''write(fd, &serializedSize, 8) == 8''))
        else fillFileLoop f1 (unat (sz - 8)) 8 (replicate blockSize 0))"

text \<open>\<open>open\<close> with \<open>O_TRUNC\<close> starts from the empty file.\<close>

definition createFile :: "nat \<Rightarrow> filesystem \<Rightarrow> string \<Rightarrow> uint64 \<Rightarrow> (error + filesystem) option" where
  "createFile blockSize fs name sz =
     (case fillFileWithProperData blockSize ([], 0) sz of
        None \<Rightarrow> None
      | Some (Inl e) \<Rightarrow> Some (Inl e)
      | Some (Inr (content, pos)) \<Rightarrow> Some (Inr (fs(name \<mapsto> content))))"

definition overwriteFile :: "nat \<Rightarrow> filesystem \<Rightarrow> string \<Rightarrow> (error + filesystem) option" where
  "overwriteFile blockSize fs name =
     (case fs name of
        None \<Rightarrow> Some (Inl (Fatal ''stat(name.c_str(), &fileInformation)''))
      | Some old \<Rightarrow>
         (case fillFileWithProperData blockSize (old, 0) (word_of_nat (length old)) of
            None \<Rightarrow> None
          | Some (Inl e) \<Rightarrow> Some (Inl e)
          | Some (Inr (content, pos)) \<Rightarrow> Some (Inr (fs(name \<mapsto> content)))))"

section \<open>Validating a pattern file\<close>

text \<open>The scan \<open>for (size_t i = 0; i < bytesToRead; ++i)\<close> for the first byte that differs.\<close>

function scanMismatch :: "byte list \<Rightarrow> byte list \<Rightarrow> nat \<Rightarrow> nat \<Rightarrow> nat option" where
  "scanMismatch actualBuffer properBuffer i bytesToRead =
     (if i < bytesToRead
      then (if actualBuffer ! i \<noteq> properBuffer ! i then Some i
            else scanMismatch actualBuffer properBuffer (Suc i) bytesToRead)
      else None)"
  by pat_completeness auto
termination
  by (relation "measure (\<lambda>(a, p, i, n). n - i)") auto

declare scanMismatch.simps [simp del]

text \<open>The loop \<open>for (size_t j = i; j < bytesToRead && j < i + 32; ++j)\<close> printing one buffer.\<close>

function dumpBytes :: "byte list \<Rightarrow> nat \<Rightarrow> nat \<Rightarrow> nat \<Rightarrow> string" where
  "dumpBytes buffer i j bytesToRead =
     (if j < bytesToRead \<and> j < i + 32
      then hex2 (buffer ! j) @ '' '' @ dumpBytes buffer i (Suc j) bytesToRead
      else [])"
  by pat_completeness auto
termination
  by (relation "measure (\<lambda>(b, i, j, n). n - j)") auto

declare dumpBytes.simps [simp del]

definition mismatchMessage :: "byte list \<Rightarrow> byte list \<Rightarrow> nat \<Rightarrow> nat \<Rightarrow> string" where
  "mismatchMessage properBuffer actualBuffer i bytesToRead =
     ''data mismatch at offset '' @ to_string i @ ''. Expected/actual:\<newline>''
       @ dumpBytes properBuffer i i bytesToRead @ ''\<newline>''
       @ dumpBytes actualBuffer i i bytesToRead"

partial_function (option) validateLoop ::
  "fd \<Rightarrow> string \<Rightarrow> nat \<Rightarrow> off_t \<Rightarrow> byte list \<Rightarrow> byte list \<Rightarrow> (error + fd) option" where
  [code]: "validateLoop f error sz currentOffset actualBuffer properBuffer =
     (if sz > 0 then
        (let bytesToRead = (if sz > length properBuffer then length properBuffer else sz);
             properBuffer1 = resize properBuffer bytesToRead
         in case fillBufferWithProperData properBuffer1 currentOffset of
              Inl e \<Rightarrow> Some (Inl e)
            | Inr properBuffer2 \<Rightarrow>
               (case read_fd f bytesToRead of (f', chunk) \<Rightarrow>
                  if length chunk \<noteq> bytesToRead
                  then Some (Inl (Fatal ''read(fd, actualBuffer.data(), bytesToRead) == bytesToRead''))
                  else
                    (let actualBuffer1 = chunk @ drop (length chunk) actualBuffer in
                     if memcmp actualBuffer1 properBuffer2 bytesToRead = 0
                     then validateLoop f' error (sz - bytesToRead)
                            (currentOffset + int bytesToRead) actualBuffer1 properBuffer2
                     else
                       (case scanMismatch actualBuffer1 properBuffer2 0 bytesToRead of
                          Some i \<Rightarrow> Some (Inl (InvalidArgument
                            (error @ mismatchMessage properBuffer2 actualBuffer1 i bytesToRead)))
                        | None \<Rightarrow> Some (Inl (Fatal
                            ''memcmp returned non-zero, but there is no difference''))))))
      else Some (Inr f))"

text \<open>The error value of the \<open>utils_mabort\<close> after the scan, under a name.\<close>

definition impossibleAbort :: error where
  "impossibleAbort = Fatal ''memcmp returned non-zero, but there is no difference''"

definition sizeMismatchWarning :: "uint64 \<Rightarrow> uint64 \<Rightarrow> string" where
  "sizeMismatchWarning expectedSize actualSize =
     ''file should be '' @ to_string (unat expectedSize) @ '' bytes long, but is ''
       @ to_string (unat actualSize) @ '' bytes long\<newline>''"

definition validateFile :: "nat \<Rightarrow> filesystem \<Rightarrow> string \<Rightarrow> (error + unit) option" where
  "validateFile blockSize fs name =
     (case fs name of
        None \<Rightarrow> Some (Inl (Fatal ''fd != -1''))
      | Some content \<Rightarrow>
         (let actualSize = (word_of_nat (length content) :: uint64) in
          case read_fd (content, 0) 8 of (f1, header) \<Rightarrow>
            if length header \<noteq> 8
            then Some (Inl (LengthError
                   (''file too short ('' @ to_string (unat actualSize) @ '' bytes)'')))
            else
              (let expectedSize = be64toh header;
                   error = (if expectedSize \<noteq> actualSize
                            then sizeMismatchWarning expectedSize actualSize else [])
               in case validateLoop f1 error (unat (actualSize - 8)) 8
                         (replicate blockSize 0) (replicate blockSize 0) of
                    None \<Rightarrow> None
                  | Some (Inl e) \<Rightarrow> Some (Inl e)
                  | Some (Inr f2) \<Rightarrow>
                      if error \<noteq> []
                      then Some (Inl (LengthError (error @ ''The rest of the file is OK'')))
                      else Some (Inr ()))))"

text \<open>The text \<open>validateFile\<close> records in \<open>error\<close> after the header check.\<close>

definition headerWarning :: "byte list \<Rightarrow> string" where
  "headerWarning content =
     (if be64toh (take 8 content) \<noteq> word_of_nat (length content)
      then sizeMismatchWarning (be64toh (take 8 content)) (word_of_nat (length content))
      else [])"

section \<open>The pattern as a function of the absolute offset\<close>

text \<open>
  The data model in the words of the format description: the byte at absolute offset
  \<open>pos\<close> belongs to the 8-byte block that starts at \<open>pos - pos mod 8\<close>, and that block
  holds the big-endian encoding of \<open>(0x0807060504030201 + blockStart) mod 2^64\<close>.
  \<open>patternBytes offset n\<close> are the \<open>n\<close> bytes from \<open>offset\<close> on. These two definitions
  are not part of the program; the theorems compare the program with them.
\<close>

definition patternByte :: "off_t \<Rightarrow> byte" where
  "patternByte pos = htobe64 (blockPattern + word_of_int (pos - pos mod 8)) ! nat (pos mod 8)"

definition patternBytes :: "off_t \<Rightarrow> nat \<Rightarrow> byte list" where
  "patternBytes offset n = map (\<lambda>k. patternByte (offset + int k)) [0..<n]"

section \<open>Byte order\<close>

lemma be64toh_htobe64 [simp]: "be64toh (htobe64 w) = w"
proof (rule bit_word_eqI)
  fix n :: nat
  assume n: "n < LENGTH(64)"
  have eq: "bit (be64toh (htobe64 w)) n =
     (56 \<le> n \<and> n - 56 < 64 \<and> n - 56 < 8 \<and> bit w n \<or>
      48 \<le> n \<and> n - 48 < 64 \<and> n - 48 < 8 \<and> bit w n \<or>
      40 \<le> n \<and> n - 40 < 64 \<and> n - 40 < 8 \<and> bit w n \<or>
      32 \<le> n \<and> n - 32 < 64 \<and> n - 32 < 8 \<and> bit w n \<or>
      24 \<le> n \<and> n - 24 < 64 \<and> n - 24 < 8 \<and> bit w n \<or>
      16 \<le> n \<and> n - 16 < 64 \<and> n - 16 < 8 \<and> bit w n \<or>
      8 \<le> n \<and> n - 8 < 64 \<and> n - 8 < 8 \<and> bit w n \<or> n < 8 \<and> bit w n)"
    using n by (simp add: be64toh_def htobe64_def bit_simps cong: conj_cong)
  consider "n < 8" | "8 \<le> n" "n < 16" | "16 \<le> n" "n < 24" | "24 \<le> n" "n < 32"
    | "32 \<le> n" "n < 40" | "40 \<le> n" "n < 48" | "48 \<le> n" "n < 56" | "56 \<le> n" "n < 64"
    using n by fastforce
  then show "bit (be64toh (htobe64 w)) n = bit w n"
    unfolding eq by cases auto
qed

section \<open>The offset-to-block function computes the pattern\<close>

lemma length_htobe64 [simp]: "length (htobe64 w) = 8"
  by (simp add: htobe64_def)

lemma length_patternBytes [simp]: "length (patternBytes offset n) = n"
  by (simp add: patternBytes_def)

lemma length_concat_blocks:
  "(\<And>k. length (f k) = 8) \<Longrightarrow> length (concat (map f [0..<n])) = 8 * n"
  by (induction n) simp_all

lemma nth_concat_blocks:
  assumes len: "\<And>k. length (f k) = 8" and j: "j < 8 * n"
  shows "concat (map f [0..<n]) ! j = f (j div 8) ! (j mod 8)"
  using j
proof (induction n)
  case 0
  then show ?case by simp
next
  case (Suc n)
  show ?case
  proof (cases "j < 8 * n")
    case True
    then show ?thesis using Suc.IH by (simp add: nth_append length_concat_blocks [OF len])
  next
    case False
    with Suc.prems have "j div 8 = n" by simp
    moreover have "j - 8 * n = j mod 8" using False Suc.prems
      by (metis calculation minus_mult_div_eq_mod)
    ultimately show ?thesis using False
      by (simp add: nth_append length_concat_blocks [OF len])
  qed
qed

lemma fillAlignedLoop_concat:
  "length buffer = 8 * n \<Longrightarrow> i \<le> n \<Longrightarrow>
   fillAlignedLoop buffer i offset =
     take (8 * i) buffer
       @ concat (map (\<lambda>k. htobe64 (blockPattern + word_of_int (offset + 8 * int k))) [0..<n - i])"
proof (induction buffer i offset rule: fillAlignedLoop.induct)
  case (1 buffer i offset)
  show ?case
  proof (cases "i < length buffer div 8")
    case False
    with 1 have "i = n" by simp
    then show ?thesis using False 1 by (simp add: fillAlignedLoop.simps [of buffer])
  next
    case True
    let ?blk = "htobe64 (blockPattern + word_of_int offset)"
    let ?b = "store_block buffer i ?blk"
    from True 1 have lt: "i < n" by simp
    have len: "length ?b = 8 * n" using lt 1 by (simp add: store_block_def)
    have tk: "take (8 * Suc i) ?b = take (8 * i) buffer @ ?blk"
      using lt 1 by (simp add: store_block_def)
    have ih: "fillAlignedLoop ?b (Suc i) (offset + 8) =
        take (8 * Suc i) ?b
          @ concat (map (\<lambda>k. htobe64 (blockPattern + word_of_int (offset + 8 + 8 * int k))) [0..<n - Suc i])"
      using "1.IH" [OF True len] lt by simp
    have nn: "n - i = Suc (n - Suc i)" using lt by simp
    have "concat (map (\<lambda>k. htobe64 (blockPattern + word_of_int (offset + 8 * int k))) [0..<n - i])
        = ?blk @ concat (map (\<lambda>k. htobe64 (blockPattern + word_of_int (offset + 8 + 8 * int k))) [0..<n - Suc i])"
      unfolding nn by (simp add: upt_conv_Cons map_Suc_upt [symmetric] del: upt_Suc add: comp_def algebra_simps)
    then show ?thesis
      using True ih tk by (simp add: fillAlignedLoop.simps [of buffer])
  qed
qed

lemma patternBytes_aligned:
  assumes al: "offset mod 8 = 0"
  shows "concat (map (\<lambda>k. htobe64 (blockPattern + word_of_int (offset + 8 * int k))) [0..<n])
     = patternBytes offset (8 * n)"
proof (rule nth_equalityI)
  show "length (concat (map (\<lambda>k. htobe64 (blockPattern + word_of_int (offset + 8 * int k))) [0..<n]))
      = length (patternBytes offset (8 * n))"
    by (simp add: length_concat_blocks)
next
  fix j assume "j < length (concat (map (\<lambda>k. htobe64 (blockPattern + word_of_int (offset + 8 * int k))) [0..<n]))"
  then have j: "j < 8 * n" by (simp add: length_concat_blocks)
  have m: "(offset + int j) mod 8 = int (j mod 8)"
    using al by (simp add: mod_add_left_eq [symmetric] zmod_int)
  have d: "offset + int j - int (j mod 8) = offset + 8 * int (j div 8)"
    by (simp add: zmod_int zdiv_int minus_mod_eq_mult_div)
  have pb: "patternByte (offset + int j)
      = htobe64 (blockPattern + word_of_int (offset + 8 * int (j div 8))) ! (j mod 8)"
    by (simp only: patternByte_def m d nat_int)
  have "concat (map (\<lambda>k. htobe64 (blockPattern + word_of_int (offset + 8 * int k))) [0..<n]) ! j
      = htobe64 (blockPattern + word_of_int (offset + 8 * int (j div 8))) ! (j mod 8)"
    using j by (rule nth_concat_blocks [rotated]) simp
  then show "concat (map (\<lambda>k. htobe64 (blockPattern + word_of_int (offset + 8 * int k))) [0..<n]) ! j
      = patternBytes offset (8 * n) ! j"
    using j by (simp only: pb patternBytes_def nth_map_upt add_0 minus_nat.diff_0)
qed

lemma fillAligned_correct:
  "offset mod 8 = 0 \<Longrightarrow> length buffer mod 8 = 0 \<Longrightarrow>
   fillAlignedBufferWithProperData buffer offset = Inr (patternBytes offset (length buffer))"
  using fillAlignedLoop_concat [of buffer "length buffer div 8" 0 offset]
    patternBytes_aligned [of offset "length buffer div 8"]
  by (simp add: fillAlignedBufferWithProperData_def mult_div_mod_eq dvd_eq_mod_eq_0 [symmetric])

lemma patternBytes_slice:
  "d + n \<le> m \<Longrightarrow> take n (drop d (patternBytes a m)) = patternBytes (a + int d) n"
  by (rule nth_equalityI) (simp_all add: patternBytes_def add_ac)

lemma smod_nonneg: "0 \<le> a \<Longrightarrow> a smod (8::int) = a mod 8"
  by (cases "a = 0") (simp_all add: signed_modulo_int_def)

lemma sdiv_nonneg: "0 \<le> a \<Longrightarrow> a sdiv (8::int) = a div 8"
  by (cases "a = 0") (simp_all add: signed_divide_int_def)

lemma alignedOffset_nonneg: "0 \<le> offset \<Longrightarrow> alignedOffset offset = offset - offset mod 8"
  by (simp add: alignedOffset_def sdiv_nonneg minus_mod_eq_div_mult)

lemma alignedBufferSize_small:
  "sz \<le> off_t_max \<Longrightarrow> alignedBufferSize sz = 16 + (sz div 8) * 8"
  by (simp add: alignedBufferSize_def size_t_range_def off_t_max_def)

lemma slice_fits: "nat ((offset::int) mod 8) + sz \<le> 16 + (sz div 8) * 8"
proof -
  have "nat (offset mod 8) < 8" by simp
  moreover have "sz < 8 + (sz div 8) * 8"
    using mod_less_divisor [of 8 sz] div_mult_mod_eq [of sz 8] by linarith
  ultimately show ?thesis by linarith
qed

lemma fillBuffer_correct:
  assumes off: "0 \<le> offset" and len: "length buffer \<le> off_t_max"
  shows "fillBufferWithProperData buffer offset = Inr (patternBytes offset (length buffer))"
proof (cases "offset mod 8 = 0 \<and> length buffer mod 8 = 0")
  case True
  then show ?thesis
    using off by (simp add: fillBufferWithProperData_def smod_nonneg fillAligned_correct)
next
  case False
  let ?m = "16 + (length buffer div 8) * 8"
  let ?ao = "offset - offset mod 8"
  have al: "fillAlignedBufferWithProperData (replicate ?m 0) ?ao = Inr (patternBytes ?ao ?m)"
    using fillAligned_correct [of ?ao "replicate ?m 0"] by simp
  have cp: "memcpy buffer (patternBytes ?ao ?m) (offset mod 8) (length buffer)
      = Inr (patternBytes offset (length buffer))"
    using slice_fits [of offset "length buffer"]
      patternBytes_slice [of "nat (offset mod 8)" "length buffer" ?m ?ao]
    by (simp add: memcpy_def)
  show ?thesis
    using False off len al cp
    by (auto simp add: fillBufferWithProperData_def smod_nonneg alignedOffset_nonneg
        alignedBufferSize_small Let_def)
qed

section \<open>The write loop\<close>

lemma patternBytes_append:
  "patternBytes offset n @ patternBytes (offset + int n) m = patternBytes offset (n + m)"
  by (rule nth_equalityI) (auto simp: patternBytes_def nth_append add_ac)

lemma length_resize [simp]: "n \<le> length buffer \<Longrightarrow> length (resize buffer n) = n"
  by (simp add: resize_def)

lemma write_fd_inside:
  "pos \<le> length content \<Longrightarrow>
   write_fd (content, pos) data
     = ((take pos content @ data @ drop (pos + length data) content, pos + length data), length data)"
  by (simp add: write_fd_def)

lemma fillFileLoop_correct:
  "0 < length buffer \<Longrightarrow> 0 \<le> off \<Longrightarrow> pos \<le> length content \<Longrightarrow> sz \<le> off_t_max \<Longrightarrow>
   fillFileLoop (content, pos) sz off buffer
     = Some (Inr (take pos content @ patternBytes off sz @ drop (pos + sz) content, pos + sz))"
proof (induction sz arbitrary: content pos off buffer rule: less_induct)
  case (less sz)
  show ?case
  proof (cases "sz = 0")
    case True
    then show ?thesis by (subst fillFileLoop.simps) (simp add: patternBytes_def)
  next
    case False
    define n where "n = (if sz > length buffer then length buffer else sz)"
    have n: "0 < n" "n \<le> sz" "n \<le> length buffer"
      using False less.prems(1) by (auto simp: n_def)
    let ?p = "patternBytes off n"
    let ?content = "take pos content @ ?p @ drop (pos + n) content"
    have fb: "fillBufferWithProperData (resize buffer n) off = Inr ?p"
      using fillBuffer_correct [of off "resize buffer n"] n less.prems by simp
    have wr: "write_fd (content, pos) (take n ?p) = ((?content, pos + n), n)"
      using write_fd_inside [of pos content ?p] less.prems(3) by simp
    have ih: "fillFileLoop (?content, pos + n) (sz - n) (off + int n) ?p
      = Some (Inr (take (pos + n) ?content @ patternBytes (off + int n) (sz - n)
          @ drop (pos + n + (sz - n)) ?content, pos + n + (sz - n)))"
      using n less.prems by (intro less.IH) simp_all
    have t: "take (pos + n) ?content = take pos content @ ?p"
      using less.prems(3) by simp
    have d: "drop (pos + n + (sz - n)) ?content = drop (pos + sz) content"
      using less.prems(3) n by (simp add: add_ac)
    have "fillFileLoop (content, pos) sz off buffer
        = fillFileLoop (?content, pos + n) (sz - n) (off + int n) ?p"
      using False fb wr by (subst fillFileLoop.simps) (simp add: n_def [symmetric] Let_def)
    also have "\<dots> = Some (Inr (take pos content @ patternBytes off (n + (sz - n))
          @ drop (pos + sz) content, pos + sz))"
      unfolding ih t d using n by (simp add: patternBytes_append)
    finally show ?thesis using n by simp
  qed
qed

section \<open>The validation loop\<close>

lemma memcmp_eq_0_iff:
  "n \<le> length a \<Longrightarrow> n \<le> length p \<Longrightarrow> (memcmp a p n = 0) = (take n a = take n p)"
proof (induction a p n rule: memcmp.induct)
  case (1 x xs y ys n)
  then show ?case by (cases n) simp_all
qed simp_all

lemma scanMismatch_Some:
  "i \<le> k \<Longrightarrow> k < n \<Longrightarrow> a ! k \<noteq> p ! k \<Longrightarrow> (\<And>j. i \<le> j \<Longrightarrow> j < k \<Longrightarrow> a ! j = p ! j) \<Longrightarrow>
   scanMismatch a p i n = Some k"
proof (induction a p i n rule: scanMismatch.induct)
  case (1 a p i n)
  show ?case
  proof (cases "i = k")
    case True
    then show ?thesis using "1.prems" by (subst scanMismatch.simps) simp
  next
    case False
    then have lt: "i < k" using 1 by simp
    then have eq: "a ! i = p ! i" using 1 by simp
    have "scanMismatch a p (Suc i) n = Some k"
      using lt eq 1 by (intro "1.IH") simp_all
    then show ?thesis using lt eq "1.prems" by (subst scanMismatch.simps) simp
  qed
qed

lemma first_difference:
  assumes "length a = length p" and "a \<noteq> p"
  shows "\<exists>k < length a. a ! k \<noteq> p ! k \<and> (\<forall>j < k. a ! j = p ! j)"
proof -
  from assms obtain m where m: "m < length a" "a ! m \<noteq> p ! m"
    by (meson nth_equalityI)
  define k where "k = (LEAST m. m < length a \<and> a ! m \<noteq> p ! m)"
  have "k < length a \<and> a ! k \<noteq> p ! k"
    unfolding k_def using m by (intro LeastI [of "\<lambda>m. m < length a \<and> a ! m \<noteq> p ! m" m]) simp
  moreover have "\<forall>j < k. a ! j = p ! j"
  proof (intro allI impI)
    fix j assume "j < k"
    then have "\<not> (j < length a \<and> a ! j \<noteq> p ! j)"
      unfolding k_def by (rule not_less_Least)
    moreover have "j < length a" using \<open>j < k\<close> calculation \<open>k < length a \<and> a ! k \<noteq> p ! k\<close> by simp
    ultimately show "a ! j = p ! j" by simp
  qed
  ultimately show ?thesis by blast
qed

lemma dumpBytes_append:
  "n \<le> length chunk \<Longrightarrow> dumpBytes (chunk @ rest) i j n = dumpBytes chunk i j n"
proof (induction chunk i j n rule: dumpBytes.induct)
  case (1 buffer i j n)
  then show ?case
    by (simp add: dumpBytes.simps [of _ i j n] nth_append)
qed

lemma mismatchMessage_append:
  "n \<le> length chunk \<Longrightarrow> mismatchMessage p (chunk @ rest) i n = mismatchMessage p chunk i n"
  by (simp add: mismatchMessage_def dumpBytes_append)

lemma read_fd_inside:
  "pos + n \<le> length content \<Longrightarrow>
   read_fd (content, pos) n = ((content, pos + n), take n (drop pos content))"
  by (simp add: read_fd_def Let_def)

lemma patternBytes_take: "n \<le> m \<Longrightarrow> take n (patternBytes off m) = patternBytes off n"
  using patternBytes_slice [of 0 n m off] by simp

lemma patternBytes_drop: "n \<le> m \<Longrightarrow> drop n (patternBytes off m) = patternBytes (off + int n) (m - n)"
  using patternBytes_slice [of n "m - n" m off] by simp

lemma nth_patternBytes: "k < n \<Longrightarrow> patternBytes off n ! k = patternByte (off + int k)"
  by (simp add: patternBytes_def)

lemma validateLoop_step_equal:
  assumes L: "0 < length pb" "length pb \<le> length ab" and off: "0 \<le> off"
    and fit: "pos + sz \<le> length content" and sz: "0 < sz" "sz \<le> off_t_max"
    and n: "n = (if sz > length pb then length pb else sz)"
    and eq: "take n (drop pos content) = patternBytes off n"
  shows "validateLoop (content, pos) err sz off ab pb
     = validateLoop (content, pos + n) err (sz - n) (off + int n)
         (take n (drop pos content) @ drop n ab) (patternBytes off n)"
proof -
  have n': "0 < n" "n \<le> sz" "n \<le> length pb" using L sz n by auto
  have fb: "fillBufferWithProperData (resize pb n) off = Inr (patternBytes off n)"
    using fillBuffer_correct [of off "resize pb n"] n' off sz by simp
  have rd: "read_fd (content, pos) n = ((content, pos + n), take n (drop pos content))"
    using read_fd_inside [of pos n content] fit n' by simp
  have len: "length (take n (drop pos content)) = n" using fit n' by simp
  have mc: "memcmp (take n (drop pos content) @ drop n ab) (patternBytes off n) n = 0"
    using len L n' by (subst memcmp_eq_0_iff) (simp_all add: eq)
  show ?thesis
    using sz(1) fb rd len mc
    by (subst validateLoop.simps) (simp add: n [symmetric] Let_def)
qed

lemma validateLoop_step_differ:
  assumes L: "0 < length pb" "length pb \<le> length ab" and off: "0 \<le> off"
    and fit: "pos + sz \<le> length content" and sz: "0 < sz" "sz \<le> off_t_max"
    and n: "n = (if sz > length pb then length pb else sz)"
    and k: "k < n" "content ! (pos + k) \<noteq> patternByte (off + int k)"
      "\<And>j. j < k \<Longrightarrow> content ! (pos + j) = patternByte (off + int j)"
  shows "validateLoop (content, pos) err sz off ab pb
     = Some (Inl (InvalidArgument (err @
         mismatchMessage (patternBytes off n) (take n (drop pos content)) k n)))"
proof -
  have n': "0 < n" "n \<le> sz" "n \<le> length pb" using L sz n by auto
  let ?chunk = "take n (drop pos content)"
  let ?ab = "?chunk @ drop n ab"
  have fb: "fillBufferWithProperData (resize pb n) off = Inr (patternBytes off n)"
    using fillBuffer_correct [of off "resize pb n"] n' off sz by simp
  have rd: "read_fd (content, pos) n = ((content, pos + n), ?chunk)"
    using read_fd_inside [of pos n content] fit n' by simp
  have len: "length ?chunk = n" using fit n' by simp
  have nth: "\<And>j. j < n \<Longrightarrow> ?ab ! j = content ! (pos + j)"
    using len fit n' by (simp add: nth_append)
  have "?chunk ! k \<noteq> patternBytes off n ! k"
    using k nth [of k] len by (simp add: nth_append nth_patternBytes)
  then have ne: "?chunk \<noteq> patternBytes off n" by auto
  have mc: "memcmp ?ab (patternBytes off n) n \<noteq> 0"
    using len L n' ne by (subst memcmp_eq_0_iff) simp_all
  have sc: "scanMismatch ?ab (patternBytes off n) 0 n = Some k"
  proof (rule scanMismatch_Some)
    show "?ab ! k \<noteq> patternBytes off n ! k" using k nth [of k] by (simp add: nth_patternBytes)
    fix j assume "0 \<le> j" "j < k"
    then show "?ab ! j = patternBytes off n ! j"
      using k nth [of j] by (simp add: nth_patternBytes)
  qed (use k in simp_all)
  have msg: "mismatchMessage (patternBytes off n) ?ab k n
      = mismatchMessage (patternBytes off n) ?chunk k n"
    using len by (simp add: mismatchMessage_append)
  show ?thesis
    using sz(1) fb rd len mc sc msg
    by (subst validateLoop.simps) (simp add: n [symmetric] Let_def)
qed

lemma validateLoop_ok:
  "0 < length pb \<Longrightarrow> length pb \<le> length ab \<Longrightarrow> 0 \<le> off \<Longrightarrow> pos + sz \<le> length content \<Longrightarrow>
   sz \<le> off_t_max \<Longrightarrow> take sz (drop pos content) = patternBytes off sz \<Longrightarrow>
   validateLoop (content, pos) err sz off ab pb = Some (Inr (content, pos + sz))"
proof (induction sz arbitrary: pos off ab pb rule: less_induct)
  case (less sz)
  show ?case
  proof (cases "sz = 0")
    case True
    then show ?thesis by (subst validateLoop.simps) simp
  next
    case False
    define n where "n = (if sz > length pb then length pb else sz)"
    have n: "0 < n" "n \<le> sz" "n \<le> length pb" using False less.prems(1) by (auto simp: n_def)
    have "take n (take sz (drop pos content)) = take n (patternBytes off sz)"
      using less.prems(6) by simp
    then have eq: "take n (drop pos content) = patternBytes off n"
      using n by (simp add: patternBytes_take min_absorb1)
    have "drop n (take sz (drop pos content)) = drop n (patternBytes off sz)"
      using less.prems(6) by simp
    then have rest: "take (sz - n) (drop (pos + n) content) = patternBytes (off + int n) (sz - n)"
      using n by (simp add: patternBytes_drop drop_take add.commute)
    have "validateLoop (content, pos) err sz off ab pb
       = validateLoop (content, pos + n) err (sz - n) (off + int n)
           (take n (drop pos content) @ drop n ab) (patternBytes off n)"
      using less.prems False n_def eq by (intro validateLoop_step_equal) simp_all
    also have "\<dots> = Some (Inr (content, pos + n + (sz - n)))"
      using n less.prems rest by (intro less.IH) simp_all
    finally show ?thesis using n by simp
  qed
qed

lemma validateLoop_mismatch:
  "0 < length pb \<Longrightarrow> length pb \<le> length ab \<Longrightarrow> 0 \<le> off \<Longrightarrow> pos + sz \<le> length content \<Longrightarrow>
   sz \<le> off_t_max \<Longrightarrow> k < sz \<Longrightarrow> content ! (pos + k) \<noteq> patternByte (off + int k) \<Longrightarrow>
   (\<And>j. j < k \<Longrightarrow> content ! (pos + j) = patternByte (off + int j)) \<Longrightarrow>
   validateLoop (content, pos) err sz off ab pb
     = Some (Inl (InvalidArgument (err @
         mismatchMessage
           (patternBytes (off + int (k div length pb * length pb))
              (min (length pb) (sz - k div length pb * length pb)))
           (take (min (length pb) (sz - k div length pb * length pb))
              (drop (pos + k div length pb * length pb) content))
           (k mod length pb)
           (min (length pb) (sz - k div length pb * length pb)))))"
proof (induction sz arbitrary: pos off ab pb k rule: less_induct)
  case (less sz)
  define L where "L = length pb"
  define n where "n = (if sz > length pb then length pb else sz)"
  have sz: "0 < sz" using less.prems(6) by simp
  have n: "0 < n" "n \<le> sz" "n \<le> L" "n = min L sz" using sz less.prems(1) by (auto simp: n_def L_def)
  show ?case
  proof (cases "k < n")
    case True
    then have k0: "k div L = 0" "k mod L = k" using n by simp_all
    have "validateLoop (content, pos) err sz off ab pb
       = Some (Inl (InvalidArgument (err @
           mismatchMessage (patternBytes off n) (take n (drop pos content)) k n)))"
      using less.prems sz n_def True by (intro validateLoop_step_differ) simp_all
    then show ?thesis 
      unfolding L_def [symmetric] k0 using n by simp
  next
    case False
    then have nL: "n = L" "L \<le> k" "L < sz" using less.prems(6) n by (auto simp: n_def L_def)
    have agree: "\<And>j. j < L \<Longrightarrow> content ! (pos + j) = patternByte (off + int j)"
      using less.prems(8) nL by simp
    have eq: "take L (drop pos content) = patternBytes off L"
      using nL less.prems(4) agree by (intro nth_equalityI) (simp_all add: nth_patternBytes)
    have step: "validateLoop (content, pos) err sz off ab pb
       = validateLoop (content, pos + L) err (sz - L) (off + int L)
           (take L (drop pos content) @ drop L ab) (patternBytes off L)"
      using less.prems sz n_def eq nL by (intro validateLoop_step_equal) simp_all
    have k1: "content ! (pos + L + (k - L)) \<noteq> patternByte (off + int L + int (k - L))"
      using less.prems(7) nL by simp
    have k2: "\<And>j. j < k - L \<Longrightarrow> content ! (pos + L + j) = patternByte (off + int L + int j)"
      using less.prems(8) [of "L + _"] nL by (simp add: add.assoc)
    have L0: "0 < L" using less.prems(1) by (simp add: L_def)
    have dv: "k div L * L = L + (k - L) div L * L"
      using nL L0 by (simp add: le_div_geq)
    have md: "k mod L = (k - L) mod L"
      using nL by (simp add: le_mod_geq)
    have ih: "validateLoop (content, pos + L) err (sz - L) (off + int L)
           (take L (drop pos content) @ drop L ab) (patternBytes off L)
      = Some (Inl (InvalidArgument (err @
         mismatchMessage
           (patternBytes (off + int L + int ((k - L) div L * L))
              (min L (sz - L - (k - L) div L * L)))
           (take (min L (sz - L - (k - L) div L * L))
              (drop (pos + L + (k - L) div L * L) content))
           ((k - L) mod L)
           (min L (sz - L - (k - L) div L * L)))))"
      using less.IH [of "sz - L" "patternBytes off L" "take L (drop pos content) @ drop L ab"
          "off + int L" "pos + L" "k - L" , OF _ _ _ _ _ _ _ k1 k2]
        nL L0 less.prems(2-6) by (simp add: L_def)
    show ?thesis
      unfolding L_def [symmetric] step ih dv md by (simp add: add_ac)
  qed
qed

section \<open>The aligned buffer contains the requested slice\<close>

lemma smod8_upper: "(offset::int) smod 8 \<le> 7"
proof -
  have "\<bar>offset\<bar> mod 8 \<le> 7" "0 \<le> \<bar>offset\<bar> mod 8"
    using pos_mod_bound [of 8 "\<bar>offset\<bar>"] by simp_all
  then show ?thesis
    by (cases "offset < 0"; cases "offset = 0") (simp_all add: signed_modulo_int_def)
qed

lemma mod8_upper: "(offset::int) mod 8 \<le> 7"
  using pos_mod_bound [of 8 offset] by simp

lemma size_fits: "int sz + 7 \<le> int (16 + (sz div 8) * 8)"
  using mod_less_divisor [of 8 sz] div_mult_mod_eq [of sz 8] by linarith

text \<open>
  Claim C9. In the unaligned path the aligned buffer has \<open>16 + (size / 8) * 8\<close> bytes (the
  sum does not wrap in \<open>size_t\<close> for a buffer a vector can hold), the copy starts at index
  \<open>offset - alignedOffset\<close>, which is \<open>offset % 8\<close>, and index plus \<open>size\<close> stays within
  the aligned buffer, for every offset, with C's remainder and with the mathematical one.
  For a file offset, which is not negative, \<open>fillBufferWithProperData\<close> never copies from
  outside the aligned buffer.
\<close>

theorem aligned_superset_contains_slice:
  assumes "length buffer \<le> vector_max_size"
  shows "alignedBufferSize (length buffer) = 16 + (length buffer div 8) * 8
    \<and> offset - alignedOffset offset = offset smod 8
    \<and> offset smod 8 + int (length buffer) \<le> int (alignedBufferSize (length buffer))
    \<and> offset mod 8 + int (length buffer) \<le> int (alignedBufferSize (length buffer))
    \<and> (0 \<le> offset \<longrightarrow> fillBufferWithProperData buffer offset \<noteq> Inl OutOfBounds)"
proof -
  have len: "length buffer \<le> off_t_max"
    using assms by (simp add: vector_max_size_def off_t_max_def)
  have sz: "alignedBufferSize (length buffer) = 16 + (length buffer div 8) * 8"
    using len by (rule alignedBufferSize_small)
  have idx: "offset - alignedOffset offset = offset smod 8"
    unfolding alignedOffset_def by (rule minus_sdiv_mult_eq_smod)
  have a: "offset smod 8 + int (length buffer) \<le> int (alignedBufferSize (length buffer))"
    unfolding sz using smod8_upper [of offset] size_fits [of "length buffer"] by linarith
  have b: "offset mod 8 + int (length buffer) \<le> int (alignedBufferSize (length buffer))"
    unfolding sz using mod8_upper [of offset] size_fits [of "length buffer"] by linarith
  have c: "0 \<le> offset \<longrightarrow> fillBufferWithProperData buffer offset \<noteq> Inl OutOfBounds"
    using fillBuffer_correct [OF _ len] by simp
  show ?thesis using sz idx a b c by blast
qed

theorem aligned_superset_contains_slice_witness:
  "length (replicate 13 (0::byte)) \<le> vector_max_size
    \<and> alignedBufferSize 13 = 24
    \<and> 13 - alignedOffset 13 = 5
    \<and> (5::int) + 13 \<le> 24
    \<and> fillBufferWithProperData (replicate 13 0) 13 \<noteq> Inl OutOfBounds"
  using aligned_superset_contains_slice [of "replicate 13 0" 13]
  by (simp add: vector_max_size_def signed_modulo_int_def)

section \<open>The abort after the scan is unreachable\<close>

lemma length_fillAlignedLoop: "length (fillAlignedLoop buffer i offset) = length buffer"
proof (induction buffer i offset rule: fillAlignedLoop.induct)
  case (1 buffer i offset)
  show ?case
  proof (cases "i < length buffer div 8")
    case True
    then show ?thesis using "1.IH" by (subst fillAlignedLoop.simps) (simp add: store_block_def)
  next
    case False
    then show ?thesis by (subst fillAlignedLoop.simps) simp
  qed
qed

lemma length_fillAligned:
  "fillAlignedBufferWithProperData buffer offset = Inr r \<Longrightarrow> length r = length buffer"
  by (auto simp: fillAlignedBufferWithProperData_def length_fillAlignedLoop split: if_splits)

lemma length_fillBuffer:
  "fillBufferWithProperData buffer offset = Inr r \<Longrightarrow> length r = length buffer"
  by (auto simp: fillBufferWithProperData_def Let_def memcpy_def length_fillAligned
      split: if_splits sum.splits)

lemma memcmp_difference:
  assumes "n \<le> length a" "n \<le> length p" "memcmp a p n \<noteq> 0"
  shows "\<exists>i<n. a ! i \<noteq> p ! i \<and> scanMismatch a p 0 n = Some i"
proof -
  have "take n a \<noteq> take n p" using assms by (simp add: memcmp_eq_0_iff)
  moreover have "length (take n a) = length (take n p)" using assms by simp
  ultimately obtain k where k: "k < length (take n a)" "take n a ! k \<noteq> take n p ! k"
      "\<forall>j<k. take n a ! j = take n p ! j"
    using first_difference by blast
  then have kn: "k < n" by simp
  have "a ! k \<noteq> p ! k" using k kn by simp
  moreover have "scanMismatch a p 0 n = Some k"
    using k kn by (intro scanMismatch_Some) simp_all
  ultimately show ?thesis using kn by blast
qed

lemma validateLoop_no_abort:
  assumes "validateLoop f err sz off ab pb = Some r" and "length pb \<le> length ab"
  shows "r \<noteq> Inl impossibleAbort"
  using assms
proof (induction rule: validateLoop.raw_induct [rotated 1, consumes 1])
  case (1 loop f err sz off ab pb r)
  show ?case
  proof (cases "sz > 0")
    case False
    then show ?thesis using "1.hyps" by auto
  next
    case True
    define n where "n = (if sz > length pb then length pb else sz)"
    have n: "n \<le> length pb" by (simp add: n_def)
    show ?thesis
    proof (cases "fillBufferWithProperData (resize pb n) off")
      case (Inl e)
      then have "r = Inl e" using "1.hyps" True by (simp add: n_def [symmetric] Let_def)
      moreover have "e \<noteq> impossibleAbort"
        using Inl by (auto simp: fillBufferWithProperData_def fillAlignedBufferWithProperData_def
            memcpy_def Let_def impossibleAbort_def split: if_splits sum.splits)
      ultimately show ?thesis by simp
    next
      case (Inr pb2)
      then have lp: "length pb2 = n" using length_fillBuffer [OF Inr] n by simp
      obtain f' chunk where rd: "read_fd f n = (f', chunk)" by (cases "read_fd f n")
      show ?thesis
      proof (cases "length chunk = n")
        case False
        then show ?thesis using "1.hyps" True Inr rd
          by (auto simp add: n_def [symmetric] Let_def impossibleAbort_def)
      next
        case len: True
        let ?ab = "chunk @ drop (length chunk) ab"
        have la: "n \<le> length ?ab" using len by simp
        show ?thesis
        proof (cases "memcmp ?ab pb2 n = 0")
          case True
          have "loop f' err (sz - n) (off + int n) ?ab pb2 = Some r"
            using "1.hyps" \<open>sz > 0\<close> Inr rd len True by (simp add: n_def [symmetric] Let_def)
          moreover have "length pb2 \<le> length ?ab" using lp len n "1.prems" by simp
          ultimately show ?thesis by (rule "1.IH")
        next
          case False
          then obtain i where "scanMismatch ?ab pb2 0 n = Some i"
            using memcmp_difference [of n ?ab pb2] la lp by auto
          then show ?thesis using "1.hyps" \<open>sz > 0\<close> Inr rd len False
            by (auto simp add: n_def [symmetric] Let_def impossibleAbort_def)
        qed
      qed
    qed
  qed
qed

lemma validateFile_no_abort: "validateFile blockSize fs name \<noteq> Some (Inl impossibleAbort)"
proof (cases "fs name")
  case None
  then show ?thesis by (simp add: validateFile_def impossibleAbort_def)
next
  case (Some content)
  obtain f1 header where rd: "read_fd (content, 0) 8 = (f1, header)"
    by (cases "read_fd (content, 0) 8")
  show ?thesis
  proof (cases "length header = 8")
    case False
    then show ?thesis using Some rd by (simp add: validateFile_def Let_def impossibleAbort_def)
  next
    case True
    define err where "err = (if be64toh header \<noteq> word_of_nat (length content)
      then sizeMismatchWarning (be64toh header) (word_of_nat (length content)) else [])"
    let ?loop = "validateLoop f1 err (unat (word_of_nat (length content) - 8 :: uint64)) 8
        (replicate blockSize 0) (replicate blockSize 0)"
    have split: "validateFile blockSize fs name =
      (case ?loop of None \<Rightarrow> None | Some (Inl e) \<Rightarrow> Some (Inl e)
       | Some (Inr f2) \<Rightarrow> if err \<noteq> []
           then Some (Inl (LengthError (err @ ''The rest of the file is OK''))) else Some (Inr ()))"
      unfolding err_def using Some rd True by (simp add: validateFile_def Let_def)
    show ?thesis
    proof (cases ?loop)
      case None
      then show ?thesis unfolding split by simp
    next
      case (Some r)
      then have "r \<noteq> Inl impossibleAbort" by (rule validateLoop_no_abort) simp
      then show ?thesis unfolding split using Some
        by (cases r) (auto simp: impossibleAbort_def)
    qed
  qed
qed

text \<open>
  Claim C10. Whenever \<open>memcmp\<close> of the first \<open>bytesToRead\<close> bytes of the two buffers is not
  zero, the scan finds an index below \<open>bytesToRead\<close> at which the buffers differ, so it throws
  the data-mismatch error; and \<open>validateFile\<close> never ends in the abort that follows the scan,
  for any block size and any file.
\<close>

theorem memcmp_abort_unreachable:
  "(\<forall>actualBuffer properBuffer bytesToRead.
      bytesToRead \<le> length actualBuffer \<and> bytesToRead \<le> length properBuffer
        \<and> memcmp actualBuffer properBuffer bytesToRead \<noteq> 0 \<longrightarrow>
      (\<exists>i<bytesToRead. actualBuffer ! i \<noteq> properBuffer ! i
         \<and> scanMismatch actualBuffer properBuffer 0 bytesToRead = Some i))
   \<and> validateFile blockSize fs name \<noteq> Some (Inl impossibleAbort)"
  using memcmp_difference validateFile_no_abort by blast

theorem memcmp_abort_unreachable_witness:
  "(3::nat) \<le> length [1, 2, 3 :: byte] \<and> (3::nat) \<le> length [1, 9, 3 :: byte]
     \<and> memcmp [1, 2, 3] [1, 9, 3] 3 \<noteq> 0
     \<and> (\<exists>i<3. [1, 2, 3 :: byte] ! i \<noteq> [1, 9, 3] ! i \<and> scanMismatch [1, 2, 3] [1, 9, 3] 0 3 = Some i)
     \<and> validateFile 4 (Map.empty(''f'' \<mapsto> [0, 0, 0, 0, 0, 0, 0, 9, 7])) ''f''
          \<noteq> Some (Inl impossibleAbort)"
proof -
  have m: "memcmp [1, 2, 3] [1, 9, 3] 3 \<noteq> 0"
    by simp
  show ?thesis
    using memcmp_abort_unreachable [of 4 "Map.empty(''f'' \<mapsto> [0, 0, 0, 0, 0, 0, 0, 9, 7])" "''f''"] m
    by simp
qed

section \<open>The content of a created file\<close>

lemma unat_file_size:
  "n \<le> off_t_max \<Longrightarrow> unat (word_of_nat n :: uint64) = n"
  by (simp add: off_t_max_def unat_of_nat)

lemma unat_minus_header: "8 \<le> (sz :: uint64) \<Longrightarrow> unat (sz - 8) = unat sz - 8"
  by (simp add: unat_sub)

lemma header_le: "8 \<le> (sz :: uint64) \<Longrightarrow> 8 \<le> unat sz"
  by (simp add: word_le_nat_alt)

lemma fillFile_content:
  assumes sz: "8 \<le> sz" "unat sz \<le> off_t_max" and bs: "0 < blockSize"
  shows "fillFileWithProperData blockSize (old, 0) sz
     = Some (Inr (htobe64 sz @ patternBytes 8 (unat sz - 8) @ drop (unat sz) old, unat sz))"
proof -
  let ?c = "htobe64 sz @ drop 8 old"
  have wr: "write_fd (old, 0) (htobe64 sz) = ((?c, 8), 8)"
    by (simp add: write_fd_def)
  have n: "8 \<le> unat sz" using sz(1) by (rule header_le)
  have "fillFileLoop (?c, 8) (unat sz - 8) 8 (replicate blockSize 0)
      = Some (Inr (take 8 ?c @ patternBytes 8 (unat sz - 8) @ drop (8 + (unat sz - 8)) ?c,
          8 + (unat sz - 8)))"
    using bs sz by (intro fillFileLoop_correct) simp_all
  then have "fillFileLoop (?c, 8) (unat sz - 8) 8 (replicate blockSize 0)
      = Some (Inr (htobe64 sz @ patternBytes 8 (unat sz - 8) @ drop (unat sz) old, unat sz))"
    using n by (simp add: add.commute)
  then show ?thesis
    using sz(1) wr by (simp add: fillFileWithProperData_def unat_minus_header)
qed

lemma createFile_content:
  assumes "8 \<le> sz" "unat sz \<le> off_t_max" "0 < blockSize"
  shows "createFile blockSize fs name sz
     = Some (Inr (fs(name \<mapsto> htobe64 sz @ patternBytes 8 (unat sz - 8))))"
  using fillFile_content [OF assms, of "[]"] by (simp add: createFile_def)

lemma overwriteFile_content:
  assumes "fs name = Some old" "8 \<le> length old" "length old \<le> off_t_max" "0 < blockSize"
  shows "overwriteFile blockSize fs name
     = Some (Inr (fs(name \<mapsto> htobe64 (word_of_nat (length old)) @ patternBytes 8 (length old - 8))))"
proof -
  have u: "unat (word_of_nat (length old) :: uint64) = length old"
    using assms(3) by (rule unat_file_size)
  have le: "8 \<le> (word_of_nat (length old) :: uint64)"
    using assms(2) u by (simp add: word_le_nat_alt)
  show ?thesis
    using fillFile_content [OF le _ assms(4), of old] assms(1,3) u
    by (simp add: overwriteFile_def)
qed

lemma validateFile_unfold:
  assumes "fs name = Some content" "8 \<le> length content" "length content \<le> off_t_max"
  shows "validateFile blockSize fs name =
     (case validateLoop (content, 8) (headerWarning content) (length content - 8) 8
             (replicate blockSize 0) (replicate blockSize 0) of
        None \<Rightarrow> None
      | Some (Inl e) \<Rightarrow> Some (Inl e)
      | Some (Inr f2) \<Rightarrow>
          if headerWarning content \<noteq> []
          then Some (Inl (LengthError (headerWarning content @ ''The rest of the file is OK'')))
          else Some (Inr ()))"
proof -
  have u: "unat (word_of_nat (length content) :: uint64) = length content"
    using assms(3) by (rule unat_file_size)
  have le: "8 \<le> (word_of_nat (length content) :: uint64)"
    using assms(2) u by (simp add: word_le_nat_alt)
  have rd: "read_fd (content, 0) 8 = ((content, 8), take 8 content)"
    using read_fd_inside [of 0 8 content] assms(2) by simp
  show ?thesis
    unfolding headerWarning_def
    using assms(1,2) rd u by (simp add: validateFile_def Let_def unat_minus_header [OF le])
qed

lemma validateFile_valid:
  assumes "fs name = Some (htobe64 sz @ patternBytes 8 (unat sz - 8))"
    "8 \<le> sz" "unat sz \<le> off_t_max" "0 < blockSize"
  shows "validateFile blockSize fs name = Some (Inr ())"
proof -
  let ?content = "htobe64 sz @ patternBytes 8 (unat sz - 8)"
  have n: "8 \<le> unat sz" using assms(2) by (rule header_le)
  have len: "length ?content = unat sz" using n by simp
  have w: "headerWarning ?content = []"
    by (simp only: headerWarning_def len) simp
  have "validateLoop (?content, 8) [] (unat sz - 8) 8 (replicate blockSize 0) (replicate blockSize 0)
      = Some (Inr (?content, 8 + (unat sz - 8)))"
    using assms(3,4) n by (intro validateLoop_ok) simp_all
  then show ?thesis
    using validateFile_unfold [of fs name ?content blockSize] assms(1,3) len n w by simp
qed

lemma patternBytes_block:
  "a mod 8 = 0 \<Longrightarrow> patternBytes a 8 = htobe64 (blockPattern + word_of_int a)"
  using patternBytes_aligned [of a 1] by simp

lemma payload_block:
  assumes "8 + 8 * i + 8 \<le> n"
  shows "take 8 (drop (8 + 8 * i) (htobe64 sz @ patternBytes 8 (n - 8)))
     = htobe64 (0x0807060504030201 + 8 + 8 * word_of_nat i)"
proof -
  have "take 8 (drop (8 + 8 * i) (htobe64 sz @ patternBytes 8 (n - 8)))
      = take 8 (drop (8 * i) (patternBytes 8 (n - 8)))" by simp
  also have "\<dots> = patternBytes (8 + int (8 * i)) 8"
    using assms by (intro patternBytes_slice) simp
  also have "\<dots> = htobe64 (blockPattern + word_of_int (8 + int (8 * i)))"
    by (intro patternBytes_block) simp
  also have "\<dots> = htobe64 (0x0807060504030201 + 8 + 8 * word_of_nat i)"
    by (simp add: blockPattern_def add.assoc)
  finally show ?thesis .
qed

lemma file24:
  "htobe64 24 @ patternBytes 8 16
     = [0, 0, 0, 0, 0, 0, 0, 0x18, 8, 7, 6, 5, 4, 3, 2, 9, 8, 7, 6, 5, 4, 3, 2, 0x11]"
proof -
  have "patternBytes 8 16 = patternBytes 8 8 @ patternBytes 16 8"
    using patternBytes_append [of 8 8 8] by simp
  also have "\<dots> = htobe64 (blockPattern + 8) @ htobe64 (blockPattern + 16)"
    by (simp add: patternBytes_block)
  finally show ?thesis by (simp add: htobe64_def blockPattern_def)
qed

text \<open>
  Claim C1. For every size from 8 up to the largest size a file can have, and every positive
  block size at the time of writing and at the time of reading, \<open>createFile\<close> returns and
  \<open>validateFile\<close> on the file it wrote returns without an error.
\<close>

theorem create_then_validate:
  assumes "8 \<le> sz" and "unat sz \<le> off_t_max" and "0 < writeBlockSize" and "0 < readBlockSize"
  shows "\<exists>fs'. createFile writeBlockSize fs name sz = Some (Inr fs')
     \<and> validateFile readBlockSize fs' name = Some (Inr ())"
proof -
  let ?fs = "fs(name \<mapsto> htobe64 sz @ patternBytes 8 (unat sz - 8))"
  have "createFile writeBlockSize fs name sz = Some (Inr ?fs)"
    using assms(1-3) by (rule createFile_content)
  moreover have "validateFile readBlockSize ?fs name = Some (Inr ())"
    using assms(1,2,4) by (intro validateFile_valid) simp_all
  ultimately show ?thesis by blast
qed

theorem create_then_validate_witness:
  "(8 :: uint64) \<le> 13 \<and> unat (13 :: uint64) \<le> off_t_max \<and> (0::nat) < 3 \<and> (0::nat) < 5
   \<and> (\<exists>fs'. createFile 3 Map.empty ''f'' 13 = Some (Inr fs')
        \<and> validateFile 5 fs' ''f'' = Some (Inr ()))"
  using create_then_validate [of 13 3 5 Map.empty "''f''"]
  by (simp add: off_t_max_def)

text \<open>
  Claim C2. The file written by \<open>createFile\<close> has \<open>size\<close> bytes; its first 8 bytes are
  \<open>size\<close> in big-endian order; every complete payload block \<open>i\<close>, at offset \<open>8 + 8 * i\<close>,
  is the big-endian encoding of \<open>0x0807060504030201 + 8 + 8 * i\<close> computed in 64 bits; and
  for size 24 the file is the 24 bytes of the example.
\<close>

theorem createFile_format:
  assumes "8 \<le> sz" and "unat sz \<le> off_t_max" and "0 < blockSize"
  shows "\<exists>content. createFile blockSize fs name sz = Some (Inr (fs(name \<mapsto> content)))
     \<and> length content = unat sz
     \<and> take 8 content = htobe64 sz
     \<and> (\<forall>i. 8 + 8 * i + 8 \<le> unat sz \<longrightarrow>
          take 8 (drop (8 + 8 * i) content) = htobe64 (0x0807060504030201 + 8 + 8 * word_of_nat i))
     \<and> (sz = 24 \<longrightarrow> content =
          [0, 0, 0, 0, 0, 0, 0, 0x18, 8, 7, 6, 5, 4, 3, 2, 9, 8, 7, 6, 5, 4, 3, 2, 0x11])"
proof -
  let ?content = "htobe64 sz @ patternBytes 8 (unat sz - 8)"
  have n: "8 \<le> unat sz" using assms(1) by (rule header_le)
  have "createFile blockSize fs name sz = Some (Inr (fs(name \<mapsto> ?content)))"
    using assms by (rule createFile_content)
  moreover have "length ?content = unat sz" using n by simp
  moreover have "take 8 ?content = htobe64 sz" by simp
  moreover have "\<forall>i. 8 + 8 * i + 8 \<le> unat sz \<longrightarrow>
      take 8 (drop (8 + 8 * i) ?content) = htobe64 (0x0807060504030201 + 8 + 8 * word_of_nat i)"
    using payload_block by blast
  moreover have "sz = 24 \<longrightarrow> ?content =
      [0, 0, 0, 0, 0, 0, 0, 0x18, 8, 7, 6, 5, 4, 3, 2, 9, 8, 7, 6, 5, 4, 3, 2, 0x11]"
    using file24 by simp
  ultimately show ?thesis by blast
qed

theorem createFile_format_witness:
  "(8 :: uint64) \<le> 24 \<and> unat (24 :: uint64) \<le> off_t_max \<and> (0::nat) < 5
   \<and> createFile 5 Map.empty ''f'' 24 = Some (Inr (Map.empty(''f'' \<mapsto>
        [0, 0, 0, 0, 0, 0, 0, 0x18, 8, 7, 6, 5, 4, 3, 2, 9, 8, 7, 6, 5, 4, 3, 2, 0x11])))"
  using createFile_format [of 24 5 Map.empty "''f''"]
  by (auto simp add: off_t_max_def)

section \<open>Truncated tail, short files and overwriting\<close>

lemma last_block:
  assumes n: "8 \<le> n" 
  shows "drop (8 + 8 * ((n - 8) div 8)) (htobe64 sz @ patternBytes 8 (n - 8))
     = take (n mod 8) (htobe64 (0x0807060504030201 + word_of_nat (8 + 8 * ((n - 8) div 8))))"
proof -
  define q where "q = (n - 8) div 8"
  have r: "n - 8 - 8 * q = n mod 8"
    using n unfolding q_def by (metis le_mod_geq minus_mult_div_eq_mod)
  have le: "8 * q \<le> n - 8" unfolding q_def by simp
  have "drop (8 + 8 * q) (htobe64 sz @ patternBytes 8 (n - 8)) = drop (8 * q) (patternBytes 8 (n - 8))"
    by simp
  also have "\<dots> = patternBytes (8 + int (8 * q)) (n mod 8)"
    using le r by (simp add: patternBytes_drop)
  also have "\<dots> = take (n mod 8) (patternBytes (8 + int (8 * q)) 8)"
    by (simp add: patternBytes_take)
  also have "patternBytes (8 + int (8 * q)) 8 = htobe64 (blockPattern + word_of_int (8 + int (8 * q)))"
    by (intro patternBytes_block) simp
  also have "\<dots> = htobe64 (0x0807060504030201 + word_of_nat (8 + 8 * q))"
    by (simp add: blockPattern_def)
  finally show ?thesis unfolding q_def .
qed

text \<open>
  Claim C4, as amended. For a size that is not a multiple of 8, the file written by
  \<open>createFile\<close> ends, from the start \<open>8 + 8 * ((size - 8) div 8)\<close> of its last block, with
  the leading bytes of the full big-endian pattern block of that offset, and this truncated
  block is \<open>(size - 8) mod 8\<close> bytes long, between 1 and 7 bytes. It is \<open>size - 8\<close> bytes
  long only for sizes below 16.
\<close>

theorem truncated_tail:
  assumes "8 \<le> sz" and "unat sz \<le> off_t_max" and "0 < blockSize" and "unat sz mod 8 \<noteq> 0"
  shows "\<exists>content. createFile blockSize fs name sz = Some (Inr (fs(name \<mapsto> content)))
     \<and> length content = unat sz
     \<and> drop (8 + 8 * ((unat sz - 8) div 8)) content
         = take (unat sz mod 8)
             (htobe64 (0x0807060504030201 + word_of_nat (8 + 8 * ((unat sz - 8) div 8))))
     \<and> length (drop (8 + 8 * ((unat sz - 8) div 8)) content) = (unat sz - 8) mod 8
     \<and> 0 < (unat sz - 8) mod 8 \<and> (unat sz - 8) mod 8 < 8"
proof -
  let ?content = "htobe64 sz @ patternBytes 8 (unat sz - 8)"
  have n: "8 \<le> unat sz" using assms(1) by (rule header_le)
  have m: "(unat sz - 8) mod 8 = unat sz mod 8" using n by (simp add: le_mod_geq)
  have "createFile blockSize fs name sz = Some (Inr (fs(name \<mapsto> ?content)))"
    using assms(1-3) by (rule createFile_content)
  moreover have "length ?content = unat sz" using n by simp
  moreover have d: "drop (8 + 8 * ((unat sz - 8) div 8)) ?content
      = take (unat sz mod 8)
          (htobe64 (0x0807060504030201 + word_of_nat (8 + 8 * ((unat sz - 8) div 8))))"
    using n by (rule last_block)
  moreover have "length (drop (8 + 8 * ((unat sz - 8) div 8)) ?content) = (unat sz - 8) mod 8"
    unfolding d m by simp
  moreover have "0 < (unat sz - 8) mod 8" "(unat sz - 8) mod 8 < 8"
    using assms(4) m by simp_all
  ultimately show ?thesis by blast
qed

theorem truncated_tail_witness:
  "(8 :: uint64) \<le> 13 \<and> unat (13 :: uint64) \<le> off_t_max \<and> (0 :: nat) < 4 \<and> unat (13 :: uint64) mod 8 \<noteq> 0
   \<and> (\<exists>content. createFile 4 Map.empty ''f'' 13 = Some (Inr (Map.empty(''f'' \<mapsto> content)))
        \<and> length content = 13 \<and> drop 8 content = [8, 7, 6, 5, 4])"
proof -
  have h: "(8 :: uint64) \<le> 13" "unat (13 :: uint64) \<le> off_t_max" "(0 :: nat) < 4"
      "unat (13 :: uint64) mod 8 \<noteq> 0"
    by (simp_all add: off_t_max_def)
  from truncated_tail [OF h, of Map.empty "''f''"]
  obtain content where c: "createFile 4 Map.empty ''f'' 13 = Some (Inr (Map.empty(''f'' \<mapsto> content)))"
      "length content = unat (13 :: uint64)"
      "drop (8 + 8 * ((unat (13 :: uint64) - 8) div 8)) content
         = take (unat (13 :: uint64) mod 8)
             (htobe64 (0x0807060504030201 + word_of_nat (8 + 8 * ((unat (13 :: uint64) - 8) div 8))))"
    by blast
  have "length content = 13" using c(2) by simp
  moreover have "drop 8 content = [8, 7, 6, 5, 4]" using c(3) by (simp add: htobe64_def)
  ultimately show ?thesis using h c(1) by blast
qed

lemma file21:
  "htobe64 21 @ patternBytes 8 13
     = [0, 0, 0, 0, 0, 0, 0, 21, 8, 7, 6, 5, 4, 3, 2, 9, 8, 7, 6, 5, 4]"
proof -
  have "patternBytes 8 13 = patternBytes 8 8 @ take 5 (patternBytes 16 8)"
    using patternBytes_append [of 8 8 5] by (simp add: patternBytes_take)
  also have "\<dots> = htobe64 (blockPattern + 8) @ take 5 (htobe64 (blockPattern + 16))"
    by (simp add: patternBytes_block)
  finally show ?thesis by (simp add: htobe64_def blockPattern_def)
qed

text \<open>
  The claim as written gives the last block \<open>size - 8\<close> bytes. For size 21 the last block
  starts at offset 16 and has 5 bytes, not 13.
\<close>

theorem truncated_tail_counterexample:
  "createFile 8 Map.empty ''f'' 21 = Some (Inr (Map.empty(''f'' \<mapsto>
      [0, 0, 0, 0, 0, 0, 0, 21, 8, 7, 6, 5, 4, 3, 2, 9, 8, 7, 6, 5, 4])))
   \<and> drop (8 + 8 * ((21 - 8) div 8)) [0, 0, 0, 0, 0, 0, 0, 21, 8, 7, 6, 5, 4, 3, 2, 9, 8, 7, 6, 5, 4 :: byte]
       = [8, 7, 6, 5, 4]
   \<and> length [8, 7, 6, 5, 4 :: byte] \<noteq> 21 - 8"
  using createFile_content [of 21 8 Map.empty "''f''"] file21
  by (simp add: off_t_max_def)

text \<open>
  Claim C6. For a file of fewer than 8 bytes \<open>validateFile\<close> throws the length error
  \<open>file too short (N bytes)\<close> with the size of the file, whatever the content and the block
  size: the header is not decoded and the loop over the content is not entered.
\<close>

theorem short_file:
  assumes "fs name = Some content" and "length content < 8"
  shows "validateFile blockSize fs name
     = Some (Inl (LengthError (''file too short ('' @ to_string (length content) @ '' bytes)'')))"
proof -
  have u: "unat (word_of_nat (length content) :: uint64) = length content"
    using assms(2) by (intro unat_file_size) (simp add: off_t_max_def)
  show ?thesis
    using assms u by (simp add: validateFile_def read_fd_def Let_def)
qed

theorem short_file_witness:
  "(Map.empty(''f'' \<mapsto> [0, 0, 0, 4 :: byte])) ''f'' = Some [0, 0, 0, 4] \<and> length [0, 0, 0, 4 :: byte] < 8
   \<and> validateFile 0 (Map.empty(''f'' \<mapsto> [0, 0, 0, 4])) ''f''
        = Some (Inl (LengthError ''file too short (4 bytes)''))"
  using short_file [of "Map.empty(''f'' \<mapsto> [0, 0, 0, 4])" "''f''" "[0, 0, 0, 4]" 0]
  by (simp add: to_string.simps digit_char_def)

text \<open>
  Claim C7. For an existing file of size \<open>S\<close> from 8 on, \<open>overwriteFile\<close> leaves the file
  system in the state \<open>createFile\<close> with size \<open>S\<close> leaves it in, and the file has \<open>S\<close> bytes
  again.
\<close>

theorem overwrite_equals_create:
  assumes "fs name = Some old" and "8 \<le> length old" and "length old \<le> off_t_max"
    and "0 < blockSize"
  shows "overwriteFile blockSize fs name = createFile blockSize fs name (word_of_nat (length old))
     \<and> (\<exists>new. overwriteFile blockSize fs name = Some (Inr (fs(name \<mapsto> new)))
           \<and> length new = length old)"
proof -
  have u: "unat (word_of_nat (length old) :: uint64) = length old"
    using assms(3) by (rule unat_file_size)
  have le: "8 \<le> (word_of_nat (length old) :: uint64)"
    using assms(2) u by (simp add: word_le_nat_alt)
  have ov: "overwriteFile blockSize fs name = Some (Inr (fs(name \<mapsto>
      htobe64 (word_of_nat (length old)) @ patternBytes 8 (length old - 8))))"
    using assms by (rule overwriteFile_content)
  have cr: "createFile blockSize fs name (word_of_nat (length old)) = Some (Inr (fs(name \<mapsto>
      htobe64 (word_of_nat (length old)) @ patternBytes 8 (length old - 8))))"
    using createFile_content [OF le _ assms(4), of fs name] u assms(3) by simp
  have "length (htobe64 (word_of_nat (length old)) @ patternBytes 8 (length old - 8)) = length old"
    using assms(2) by simp
  then show ?thesis unfolding ov cr by blast
qed

theorem overwrite_equals_create_witness:
  "(Map.empty(''f'' \<mapsto> replicate 13 (7 :: byte))) ''f'' = Some (replicate 13 7)
   \<and> 8 \<le> length (replicate 13 (7 :: byte)) \<and> length (replicate 13 (7 :: byte)) \<le> off_t_max \<and> (0 :: nat) < 5
   \<and> overwriteFile 5 (Map.empty(''f'' \<mapsto> replicate 13 7)) ''f''
        = createFile 5 (Map.empty(''f'' \<mapsto> replicate 13 7)) ''f'' 13"
  using overwrite_equals_create [of "Map.empty(''f'' \<mapsto> replicate 13 7)" "''f''" "replicate 13 7" 5]
  by (simp add: off_t_max_def)

section \<open>What validation reports\<close>

text \<open>The equations that evaluate the program on a given file.\<close>

lemmas eval_defs = validateFile_def validateLoop.simps read_fd_def Let_def be64toh_def
  sizeMismatchWarning_def resize_def fillBufferWithProperData_def
  fillAlignedBufferWithProperData_def fillAlignedLoop.simps store_block_def htobe64_def
  blockPattern_def alignedBufferSize_def size_t_range_def alignedOffset_def
  signed_divide_int_def signed_modulo_int_def memcpy_def scanMismatch.simps mismatchMessage_def
  dumpBytes.simps hex2_def digit_char_def to_string.simps
  createFile_def fillFileWithProperData_def fillFileLoop.simps write_fd_def

text \<open>
  For every positive block size the number printed for the corrupted file of size 24 is
  \<open>5 mod blockSize\<close>, the index in the chunk, which is at most 5.
\<close>

lemma reported_offset_any_block_size:
  assumes "0 < blockSize"
  shows "\<exists>rest. validateFile blockSize (Map.empty(''f'' \<mapsto>
       [0, 0, 0, 0, 0, 0, 0, 0x18, 8, 7, 6, 5, 4, 0xfc, 2, 9, 8, 7, 6, 5, 4, 3, 2, 0x11])) ''f''
     = Some (Inl (InvalidArgument (''data mismatch at offset '' @ to_string (5 mod blockSize) @ rest)))"
proof -
  define content :: "byte list"
    where "content = [0, 0, 0, 0, 0, 0, 0, 0x18, 8, 7, 6, 5, 4, 0xfc, 2, 9, 8, 7, 6, 5, 4, 3, 2, 0x11]"
  define n where "n = length content - 8"
  have len: "8 \<le> length content" "length content \<le> off_t_max" "8 + n \<le> length content"
      "n \<le> off_t_max" "5 < n"
    by (simp_all add: content_def n_def off_t_max_def)
  have w: "headerWarning content = []"
    by (simp add: headerWarning_def be64toh_def content_def)
  have k1: "content ! (8 + 5) \<noteq> patternByte (8 + int 5)"
    by (simp add: patternByte_def htobe64_def blockPattern_def content_def)
  have k2: "content ! (8 + j) = patternByte (8 + int j)" if "j < 5" for j
  proof -
    from that consider "j = 0" | "j = 1" | "j = 2" | "j = 3" | "j = 4" by linarith
    then show ?thesis
      by cases (simp_all add: patternByte_def htobe64_def blockPattern_def content_def)
  qed
  obtain p a m where loop: "validateLoop (content, 8) [] n 8 (replicate blockSize 0) (replicate blockSize 0)
      = Some (Inl (InvalidArgument ([] @ mismatchMessage p a (5 mod blockSize) m)))"
    using validateLoop_mismatch [of "replicate blockSize 0" "replicate blockSize 0" 8 8 n
        content 5 "[]", OF _ _ _ len(3,4,5) k1 k2] assms
    by auto
  have "validateFile blockSize (Map.empty(''f'' \<mapsto> content)) ''f''
      = Some (Inl (InvalidArgument (mismatchMessage p a (5 mod blockSize) m)))"
    unfolding validateFile_unfold [of "Map.empty(''f'' \<mapsto> content)" "''f''" content blockSize,
        OF _ len(1,2), simplified] w n_def [symmetric] loop
    by simp
  then show ?thesis unfolding mismatchMessage_def content_def by (metis append.assoc)
qed

text \<open>
  Claim C3. The claim asks that the data-mismatch error reports the offset of the flipped
  byte, which is 13 in the file and 5 in the payload. The program prints the loop index
  \<open>i\<close>, which counts from the start of the chunk that was just read. On the valid file of
  size 24 with the byte at offset 13 changed from \<open>03\<close> to \<open>fc\<close>, a block size of 4 gives
  \<open>data mismatch at offset 1\<close>, with the 3 bytes that remain in the chunk, and a block size of
  16 gives \<open>data mismatch at offset 5\<close>, with the 11 bytes that remain; by the lemma above
  no block size gives 13.
\<close>

theorem mismatch_offset_is_chunk_relative:
  "createFile 4 Map.empty ''f'' 24 = Some (Inr (Map.empty(''f'' \<mapsto>
       [0, 0, 0, 0, 0, 0, 0, 0x18, 8, 7, 6, 5, 4, 3, 2, 9, 8, 7, 6, 5, 4, 3, 2, 0x11])))
   \<and> validateFile 4 (Map.empty(''f'' \<mapsto>
       [0, 0, 0, 0, 0, 0, 0, 0x18, 8, 7, 6, 5, 4, 3, 2, 9, 8, 7, 6, 5, 4, 3, 2, 0x11][13 := 0xfc])) ''f''
     = Some (Inl (InvalidArgument
         ''data mismatch at offset 1. Expected/actual:\<newline>03 02 09 \<newline>fc 02 09 ''))
   \<and> validateFile 16 (Map.empty(''f'' \<mapsto>
       [0, 0, 0, 0, 0, 0, 0, 0x18, 8, 7, 6, 5, 4, 3, 2, 9, 8, 7, 6, 5, 4, 3, 2, 0x11][13 := 0xfc])) ''f''
     = Some (Inl (InvalidArgument
         ''data mismatch at offset 5. Expected/actual:\<newline>03 02 09 08 07 06 05 04 03 02 11 \<newline>fc 02 09 08 07 06 05 04 03 02 11 ''))"
proof (intro conjI)
  show "createFile 4 Map.empty ''f'' 24 = Some (Inr (Map.empty(''f'' \<mapsto>
       [0, 0, 0, 0, 0, 0, 0, 0x18, 8, 7, 6, 5, 4, 3, 2, 9, 8, 7, 6, 5, 4, 3, 2, 0x11])))"
    using createFile_content [of 24 4 Map.empty "''f''"] file24 by (simp add: off_t_max_def)
  show "validateFile 4 (Map.empty(''f'' \<mapsto>
       [0, 0, 0, 0, 0, 0, 0, 0x18, 8, 7, 6, 5, 4, 3, 2, 9, 8, 7, 6, 5, 4, 3, 2, 0x11][13 := 0xfc])) ''f''
     = Some (Inl (InvalidArgument
         ''data mismatch at offset 1. Expected/actual:\<newline>03 02 09 \<newline>fc 02 09 ''))"
    by (simp add: eval_defs)
  show "validateFile 16 (Map.empty(''f'' \<mapsto>
       [0, 0, 0, 0, 0, 0, 0, 0x18, 8, 7, 6, 5, 4, 3, 2, 9, 8, 7, 6, 5, 4, 3, 2, 0x11][13 := 0xfc])) ''f''
     = Some (Inl (InvalidArgument
         ''data mismatch at offset 5. Expected/actual:\<newline>03 02 09 08 07 06 05 04 03 02 11 \<newline>fc 02 09 08 07 06 05 04 03 02 11 ''))"
    by (simp add: eval_defs)
qed

lemma headerWarning_mismatch:
  assumes "be64toh (take 8 content) \<noteq> word_of_nat (length content)"
  shows "headerWarning content
     = sizeMismatchWarning (be64toh (take 8 content)) (word_of_nat (length content))"
    and "headerWarning content \<noteq> []"
  using assms by (simp_all add: headerWarning_def sizeMismatchWarning_def)

text \<open>
  Claim C5. When the decoded header differs from the size of the file, \<open>validateFile\<close> still
  compares the \<open>actualSize - 8\<close> bytes after the header with the pattern. If they all match
  it throws the length error made of the size-mismatch text and \<open>The rest of the file is OK\<close>;
  if they do not, it throws the invalid-argument error whose message is the size-mismatch text
  followed by the data-mismatch text.
\<close>

theorem size_mismatch_and_content:
  assumes "fs name = Some content" and "8 \<le> length content" and "length content \<le> off_t_max"
    and "be64toh (take 8 content) \<noteq> word_of_nat (length content)" and "0 < blockSize"
  shows "(drop 8 content = patternBytes 8 (length content - 8) \<longrightarrow>
        validateFile blockSize fs name = Some (Inl (LengthError
          (sizeMismatchWarning (be64toh (take 8 content)) (word_of_nat (length content))
             @ ''The rest of the file is OK''))))
     \<and> (drop 8 content \<noteq> patternBytes 8 (length content - 8) \<longrightarrow>
        (\<exists>details. validateFile blockSize fs name = Some (Inl (InvalidArgument
          (sizeMismatchWarning (be64toh (take 8 content)) (word_of_nat (length content))
             @ ''data mismatch at offset '' @ details)))))"
proof (intro conjI impI)
  let ?w = "sizeMismatchWarning (be64toh (take 8 content)) (word_of_nat (length content))"
  let ?n = "length content - 8"
  note w = headerWarning_mismatch [OF assms(4)]
  note unfold = validateFile_unfold [of fs name content blockSize, OF assms(1-3)]
  {
    assume eq: "drop 8 content = patternBytes 8 ?n"
    have "validateLoop (content, 8) (headerWarning content) ?n 8
        (replicate blockSize 0) (replicate blockSize 0) = Some (Inr (content, 8 + ?n))"
      using assms(2,3,5) eq by (intro validateLoop_ok) simp_all
    then show "validateFile blockSize fs name
        = Some (Inl (LengthError (?w @ ''The rest of the file is OK'')))"
      unfolding unfold using w by simp
  }
  {
    assume ne: "drop 8 content \<noteq> patternBytes 8 ?n"
    have "length (drop 8 content) = length (patternBytes 8 ?n)" by simp
    then obtain k where k: "k < length (drop 8 content)"
        "drop 8 content ! k \<noteq> patternBytes 8 ?n ! k"
        "\<forall>j<k. drop 8 content ! j = patternBytes 8 ?n ! j"
      using first_difference [of "drop 8 content" "patternBytes 8 ?n"] ne by blast
    have kn: "k < ?n" using k(1) by simp
    have k1: "content ! (8 + k) \<noteq> patternByte (8 + int k)"
      using k(2) kn assms(2) by (simp add: nth_patternBytes)
    have k2: "\<And>j. j < k \<Longrightarrow> content ! (8 + j) = patternByte (8 + int j)"
      using k(3) kn assms(2) by (simp add: nth_patternBytes)
    obtain p a i n where "validateLoop (content, 8) (headerWarning content) ?n 8
        (replicate blockSize 0) (replicate blockSize 0)
        = Some (Inl (InvalidArgument (headerWarning content @ mismatchMessage p a i n)))"
      using validateLoop_mismatch [of "replicate blockSize 0" "replicate blockSize 0" 8 8 ?n
          content k "headerWarning content", OF _ _ _ _ _ kn k1 k2] assms(2,3,5)
      by auto
    then have "validateFile blockSize fs name
        = Some (Inl (InvalidArgument (?w @ mismatchMessage p a i n)))"
      unfolding unfold using w by simp
    then show "\<exists>details. validateFile blockSize fs name
        = Some (Inl (InvalidArgument (?w @ ''data mismatch at offset '' @ details)))"
      unfolding mismatchMessage_def by (metis append.assoc)
  }
qed

theorem size_mismatch_and_content_witness:
  "(Map.empty(''f'' \<mapsto> htobe64 100 @ patternBytes 8 42)) ''f'' = Some (htobe64 100 @ patternBytes 8 42)
   \<and> 8 \<le> length (htobe64 100 @ patternBytes 8 42)
   \<and> length (htobe64 100 @ patternBytes 8 42) \<le> off_t_max
   \<and> be64toh (take 8 (htobe64 100 @ patternBytes 8 42)) \<noteq> word_of_nat (length (htobe64 100 @ patternBytes 8 42))
   \<and> (0 :: nat) < 16
   \<and> drop 8 (htobe64 100 @ patternBytes 8 42) = patternBytes 8 (length (htobe64 100 @ patternBytes 8 42) - 8)
   \<and> validateFile 16 (Map.empty(''f'' \<mapsto> htobe64 100 @ patternBytes 8 42)) ''f''
       = Some (Inl (LengthError
           ''file should be 100 bytes long, but is 50 bytes long\<newline>The rest of the file is OK''))"
  using size_mismatch_and_content [of "Map.empty(''f'' \<mapsto> htobe64 100 @ patternBytes 8 42)" "''f''"
      "htobe64 100 @ patternBytes 8 42" 16]
  by (simp add: off_t_max_def sizeMismatchWarning_def to_string.simps digit_char_def)

section \<open>Determinism of the offset-to-block function\<close>

text \<open>
  Claim C8. For every file offset (file offsets are not negative) and every buffer,
  \<open>fillBufferWithProperData\<close> returns bytes that are a function of the absolute offset only:
  byte \<open>k\<close> is \<open>patternByte (offset + k)\<close>. The result is the slice, starting at
  \<open>offset - a\<close>, of what \<open>fillAlignedBufferWithProperData\<close> computes for any aligned range
  from \<open>a\<close> that covers it, and two calls with any offsets and sizes agree on every byte that
  has the same absolute offset in both, whatever the chunk boundaries.
\<close>

theorem offset_block_determinism:
  assumes "0 \<le> offset" and "length buffer \<le> vector_max_size"
  shows "\<exists>bytes. fillBufferWithProperData buffer offset = Inr bytes
     \<and> length bytes = length buffer
     \<and> (\<forall>k < length buffer. bytes ! k = patternByte (offset + int k))
     \<and> (\<forall>a big. a mod 8 = 0 \<and> a \<le> offset \<and> length big mod 8 = 0
            \<and> offset + int (length buffer) \<le> a + int (length big) \<longrightarrow>
          (\<exists>aligned. fillAlignedBufferWithProperData big a = Inr aligned
             \<and> bytes = take (length buffer) (drop (nat (offset - a)) aligned)))
     \<and> (\<forall>offset' buffer'. 0 \<le> offset' \<and> length buffer' \<le> vector_max_size \<longrightarrow>
          (\<exists>bytes'. fillBufferWithProperData buffer' offset' = Inr bytes'
             \<and> (\<forall>k < length buffer. \<forall>k' < length buffer'.
                   offset + int k = offset' + int k' \<longrightarrow> bytes ! k = bytes' ! k')))"
proof -
  let ?bytes = "patternBytes offset (length buffer)"
  have len: "length buffer \<le> off_t_max"
    using assms(2) by (simp add: vector_max_size_def off_t_max_def)
  have fb: "fillBufferWithProperData buffer offset = Inr ?bytes"
    using assms(1) len by (rule fillBuffer_correct)
  have nth: "\<forall>k < length buffer. ?bytes ! k = patternByte (offset + int k)"
    by (simp add: nth_patternBytes)
  have slice: "\<exists>aligned. fillAlignedBufferWithProperData big a = Inr aligned
      \<and> ?bytes = take (length buffer) (drop (nat (offset - a)) aligned)"
    if "a mod 8 = 0 \<and> a \<le> offset \<and> length big mod 8 = 0
      \<and> offset + int (length buffer) \<le> a + int (length big)" for a big
  proof -
    have al: "fillAlignedBufferWithProperData big a = Inr (patternBytes a (length big))"
      using that by (intro fillAligned_correct) simp_all
    have "take (length buffer) (drop (nat (offset - a)) (patternBytes a (length big)))
        = patternBytes (a + int (nat (offset - a))) (length buffer)"
      using that by (intro patternBytes_slice) linarith
    then have "?bytes = take (length buffer) (drop (nat (offset - a)) (patternBytes a (length big)))"
      using that by simp
    then show ?thesis using al by blast
  qed
  have other: "\<exists>bytes'. fillBufferWithProperData buffer' offset' = Inr bytes'
      \<and> (\<forall>k < length buffer. \<forall>k' < length buffer'.
            offset + int k = offset' + int k' \<longrightarrow> ?bytes ! k = bytes' ! k')"
    if "0 \<le> offset' \<and> length buffer' \<le> vector_max_size" for offset' buffer'
  proof -
    have "length buffer' \<le> off_t_max"
      using that by (simp add: vector_max_size_def off_t_max_def)
    then have "fillBufferWithProperData buffer' offset' = Inr (patternBytes offset' (length buffer'))"
      using that by (intro fillBuffer_correct) simp_all
    moreover have "\<forall>k < length buffer. \<forall>k' < length buffer'.
        offset + int k = offset' + int k' \<longrightarrow>
          ?bytes ! k = patternBytes offset' (length buffer') ! k'"
      by (simp add: nth_patternBytes)
    ultimately show ?thesis by blast
  qed
  show ?thesis
    using fb nth slice other by (intro exI [of _ ?bytes]) simp
qed

theorem offset_block_determinism_witness:
  "(0 :: int) \<le> 13 \<and> length (replicate 5 (0 :: byte)) \<le> vector_max_size
   \<and> (\<exists>bytes aligned. fillBufferWithProperData (replicate 5 0) 13 = Inr bytes
        \<and> length bytes = 5
        \<and> fillAlignedBufferWithProperData (replicate 16 0) 8 = Inr aligned
        \<and> bytes = take 5 (drop 5 aligned))"
proof -
  have h: "(0 :: int) \<le> 13" "length (replicate 5 (0 :: byte)) \<le> vector_max_size"
    by (simp_all add: vector_max_size_def)
  from offset_block_determinism [OF h]
  obtain bytes where b: "fillBufferWithProperData (replicate 5 0) 13 = Inr bytes"
      "length bytes = length (replicate 5 (0 :: byte))"
      "\<forall>a big. a mod 8 = 0 \<and> a \<le> 13 \<and> length big mod 8 = 0
            \<and> 13 + int (length (replicate 5 (0 :: byte))) \<le> a + int (length big) \<longrightarrow>
          (\<exists>aligned. fillAlignedBufferWithProperData big a = Inr aligned
             \<and> bytes = take (length (replicate 5 (0 :: byte))) (drop (nat (13 - a)) aligned))"
    by blast
  from b(3) [rule_format, of 8 "replicate 16 0"]
  obtain aligned where "fillAlignedBufferWithProperData (replicate 16 0) 8 = Inr aligned"
      "bytes = take 5 (drop 5 aligned)"
    by auto
  then show ?thesis using h b(1,2) by auto
qed

end
